theory Spec2Isabelle
  imports Main "HOL-Library.Word" "HOL-Library.Sublist" "HOL-Library.Multiset"
begin

section \<open>Values of the host language\<close>

text \<open>
  A JavaScript string is a sequence of UTF-16 code units. All identifiers (commit hashes)
  are such strings. \<open>js\<close> writes an ASCII literal as a code-unit sequence.
\<close>

type_synonym code_unit = "16 word"
type_synonym jsstring = "code_unit list"

definition js :: "string \<Rightarrow> jsstring" where
  "js s = map (\<lambda>c. of_nat (of_char c)) s"

text \<open>
  \<open>String.prototype.trim\<close> strips the code units that ECMAScript classifies as
  WhiteSpace or LineTerminator from both ends of the string.
\<close>

definition isWhiteSpace :: "code_unit \<Rightarrow> bool" where
  "isWhiteSpace c \<longleftrightarrow>
     c \<in> {0x0009, 0x000A, 0x000B, 0x000C, 0x000D, 0x0020, 0x00A0, 0x1680,
          0x2028, 0x2029, 0x202F, 0x205F, 0x3000, 0xFEFF}
     \<or> (0x2000 \<le> c \<and> c \<le> 0x200A)"

definition trim :: "jsstring \<Rightarrow> jsstring" where
  "trim s = rev (dropWhile isWhiteSpace (rev (dropWhile isWhiteSpace s)))"

text \<open>
  A \<open>Date\<close> holds a time value in milliseconds since the epoch, or is invalid (NaN).
  \<open>a >= b\<close> on two dates compares the time values and is false when either is NaN.
\<close>

datatype jsdate = InvalidDate | TimeValue int

fun date_ge :: "jsdate \<Rightarrow> jsdate \<Rightarrow> bool" where
  "date_ge (TimeValue a) (TimeValue b) = (b \<le> a)"
| "date_ge _ _ = False"

section \<open>Data model\<close>

text \<open>
  A parent entry of a commit is read only through the tests of \<open>normalizeParentHash\<close>:
  it is falsy (\<open>ParentAbsent\<close>: null, undefined), a string, or some other value of which
  the properties \<open>hash\<close>, \<open>sha\<close> and \<open>commit\<close> are looked at; each of the three is
  \<open>Some s\<close> exactly when \<open>typeof\<close> of the property is \<open>'string'\<close>.
\<close>

datatype parent =
    ParentAbsent
  | ParentStr jsstring
  | ParentObj "jsstring option" "jsstring option" "jsstring option"

text \<open>
  A commit as delivered by the repository. \<open>hash\<close> is \<open>None\<close> when the property is
  missing; \<open>parents\<close> is \<open>None\<close> when the property is not an array; a date is \<open>None\<close>
  when the property is missing.
\<close>

record commit =
  hash :: "jsstring option"
  parents :: "parent list option"
  authorName :: jsstring
  authorDate :: "jsdate option"
  commitDate :: "jsdate option"
  message :: jsstring

datatype RangeSelection =
    DaysSelection (sinceDate: jsdate) (days: int)
  | TagSelection (sinceDate: jsdate) (tag: jsstring) (commitHash: jsstring)
  | CommitSelection (sinceDate: jsdate) (commitHash: jsstring)

text \<open>
  The repository capability: \<open>log\<close> takes \<open>maxEntries\<close>, \<open>getCommit\<close> an identifier.
  Either call may be rejected; the rejection is the \<open>Inl\<close> value. A call that is not
  rejected delivers commit objects (never \<open>null\<close>), as the interface of the repository
  says.
\<close>

datatype error = Thrown jsstring

record repo =
  log :: "nat \<Rightarrow> error + commit list"
  getCommit :: "jsstring \<Rightarrow> error + commit"

definition MAX_LOG_ENTRIES :: nat where
  "MAX_LOG_ENTRIES = 200"

section \<open>Normalization helpers\<close>

definition getCommitDate :: "commit \<Rightarrow> jsdate" where
  "getCommitDate c =
     (case authorDate c of
        Some d \<Rightarrow> d
      | None \<Rightarrow> (case commitDate c of Some d \<Rightarrow> d | None \<Rightarrow> TimeValue 0))"

fun normalizeHash :: "jsstring option \<Rightarrow> jsstring option" where
  "normalizeHash None = None"
| "normalizeHash (Some h) =
     (if h = [] then None
      else (let trimmed = trim h in if trimmed = [] then None else Some trimmed))"

definition normalizeCommit :: "commit \<Rightarrow> commit" where
  "normalizeCommit c =
     (case normalizeHash (hash c) of
        Some normalizedHash \<Rightarrow>
          if Some normalizedHash \<noteq> hash c then c\<lparr>hash := Some normalizedHash\<rparr> else c
      | None \<Rightarrow> c)"

fun normalizeParentHash :: "parent \<Rightarrow> jsstring option" where
  "normalizeParentHash ParentAbsent = None"
| "normalizeParentHash (ParentStr s) = (if s = [] then None else Some s)"
| "normalizeParentHash (ParentObj h s c) =
     (if h \<noteq> None then h
      else if s \<noteq> None then s
      else if c \<noteq> None then c
      else None)"

section \<open>Ancestor collector\<close>

text \<open>
  The working state of one call of \<open>collectAncestorHashes\<close>: the \<open>visited\<close> set (a
  JavaScript \<open>Set\<close>, kept in insertion order), the FIFO \<open>queue\<close>, and a ghost \<open>trace\<close>
  that records, in order, every \<open>visited.add\<close> and every \<open>queue.push\<close> the call executes.
  The cap \<open>maxCommits\<close> is a count, a natural number: the contract of the collector asks
  for a positive integer, and the resolver passes \<open>MAX_LOG_ENTRIES\<close>.
\<close>

datatype event = Add jsstring | Push jsstring

record bfs_state =
  visited :: "jsstring list"
  queue :: "jsstring list"
  trace :: "event list"

definition set_add :: "'a \<Rightarrow> 'a list \<Rightarrow> 'a list" where
  "set_add x xs = (if x \<in> set xs then xs else xs @ [x])"

text \<open>The body of the \<open>for (const parent of parents)\<close> loop.\<close>

definition enqueueParent :: "parent \<Rightarrow> bfs_state \<Rightarrow> bfs_state" where
  "enqueueParent p s =
     (case normalizeHash (normalizeParentHash p) of
        Some parentHash \<Rightarrow>
          if parentHash \<notin> set (visited s)
          then s\<lparr>queue := queue s @ [parentHash], trace := trace s @ [Push parentHash]\<rparr>
          else s
      | None \<Rightarrow> s)"

definition parentsArray :: "commit \<Rightarrow> parent list" where
  "parentsArray c = (case parents c of Some ps \<Rightarrow> ps | None \<Rightarrow> [])"

definition loop_cond :: "nat \<Rightarrow> bfs_state \<Rightarrow> bool" where
  "loop_cond maxCommits s \<longleftrightarrow> queue s \<noteq> [] \<and> length (visited s) < maxCommits"

text \<open>One iteration of the \<open>while\<close> loop.\<close>

definition loop_body :: "repo \<Rightarrow> bfs_state \<Rightarrow> bfs_state" where
  "loop_body r s =
     (case queue s of
        [] \<Rightarrow> s
      | h # rest \<Rightarrow>
          (let s1 = s\<lparr>queue := rest\<rparr> in
           if h = [] \<or> h \<in> set (visited s1) then s1
           else
             (let s2 = s1\<lparr>visited := set_add h (visited s1), trace := trace s1 @ [Add h]\<rparr> in
              case getCommit r h of
                Inl e \<Rightarrow> s2
              | Inr c \<Rightarrow> fold enqueueParent (parentsArray c) s2)))"

function while_loop :: "repo \<Rightarrow> nat \<Rightarrow> bfs_state \<Rightarrow> bfs_state" where
  "while_loop r maxCommits s =
     (if loop_cond maxCommits s then while_loop r maxCommits (loop_body r s) else s)"
  by pat_completeness auto
termination
proof (relation "measures [\<lambda>(r, m, s). m - length (visited s), \<lambda>(r, m, s). length (queue s)]")
  show "wf (measures [\<lambda>(r, m, s). m - length (visited s), \<lambda>(r, m, s). length (queue s)])"
    by simp
next
  fix r :: repo and maxCommits :: nat and s :: bfs_state
  assume c: "loop_cond maxCommits s"
  have vis_fold: "visited (fold enqueueParent ps t) = visited t" for ps t
    by (induction ps arbitrary: t) (auto simp: enqueueParent_def split: option.splits)
  from c have "maxCommits - length (visited (loop_body r s)) < maxCommits - length (visited s)
     \<or> (length (visited (loop_body r s)) = length (visited s)
        \<and> length (queue (loop_body r s)) < length (queue s))"
    by (cases "queue s")
       (auto simp: loop_cond_def loop_body_def Let_def set_add_def vis_fold split: sum.splits)
  then show "((r, maxCommits, loop_body r s), (r, maxCommits, s))
          \<in> measures [\<lambda>(r, m, s). m - length (visited s), \<lambda>(r, m, s). length (queue s)]"
    by auto
qed

declare while_loop.simps [simp del]

definition initial_state :: "jsstring \<Rightarrow> bfs_state" where
  "initial_state startHash =
     \<lparr>visited = [],
      queue = (case normalizeHash (Some startHash) of Some n \<Rightarrow> [n] | None \<Rightarrow> []),
      trace = []\<rparr>"

definition collect_run :: "repo \<Rightarrow> jsstring \<Rightarrow> nat \<Rightarrow> bfs_state" where
  "collect_run r startHash maxCommits = while_loop r maxCommits (initial_state startHash)"

definition collectAncestorHashes :: "repo \<Rightarrow> jsstring \<Rightarrow> nat \<Rightarrow> jsstring list" where
  "collectAncestorHashes r startHash maxCommits = visited (collect_run r startHash maxCommits)"

section \<open>Range resolver\<close>

definition keepHeadCommit :: "jsstring list \<Rightarrow> commit \<Rightarrow> bool" where
  "keepHeadCommit targetHashes c =
     (case normalizeHash (hash c) of Some h \<Rightarrow> h \<notin> set targetHashes | None \<Rightarrow> False)"

definition getCommitsForSelection :: "repo \<Rightarrow> RangeSelection \<Rightarrow> error + commit list" where
  "getCommitsForSelection r selection =
     (case selection of
        DaysSelection since n \<Rightarrow>
          (case log r MAX_LOG_ENTRIES of
             Inl e \<Rightarrow> Inl e
           | Inr allCommits \<Rightarrow>
               Inr (map normalizeCommit
                      (filter (\<lambda>c. date_ge (getCommitDate c) since) allCommits)))
      | _ \<Rightarrow>
          (case log r MAX_LOG_ENTRIES of
             Inl e \<Rightarrow> Inl e
           | Inr headCommits \<Rightarrow>
               if length headCommits = 0 then Inr []
               else
                 (let targetHashes = collectAncestorHashes r (commitHash selection) MAX_LOG_ENTRIES;
                      headHashes = map the (filter (\<lambda>h. h \<noteq> None)
                                     (map (\<lambda>c. normalizeHash (hash c)) headCommits));
                      hasCommonAncestor = list_ex (\<lambda>h. h \<in> set targetHashes) headHashes
                  in if \<not> hasCommonAncestor then Inr []
                     else Inr (map normalizeCommit
                                 (filter (keepHeadCommit targetHashes) headCommits)))))"

section \<open>Notions used to state the properties\<close>

text \<open>
  An identifier is \<open>trimmed\<close> when it is non-empty and neither begins nor ends with white
  space; these are the values \<open>normalizeHash\<close> can return.
\<close>

definition trimmed :: "jsstring \<Rightarrow> bool" where
  "trimmed s \<longleftrightarrow> s \<noteq> [] \<and> \<not> isWhiteSpace (hd s) \<and> \<not> isWhiteSpace (last s)"

text \<open>
  \<open>parentHashes c\<close> are the identifiers the loop over \<open>c.parents\<close> gets to see: each parent
  through \<open>normalizeParentHash\<close> and \<open>normalizeHash\<close>, the absent ones left out.
  \<open>fetchedParents r h\<close> are those of the commit fetched for \<open>h\<close>, and none when the fetch
  is rejected. They are the edges of the graph the collector walks; \<open>reachable r s0\<close> is
  everything that can be reached from \<open>s0\<close> along them.
\<close>

definition parentHashes :: "commit \<Rightarrow> jsstring list" where
  "parentHashes c = List.map_filter (\<lambda>p. normalizeHash (normalizeParentHash p)) (parentsArray c)"

definition fetchedParents :: "repo \<Rightarrow> jsstring \<Rightarrow> jsstring list" where
  "fetchedParents r h = (case getCommit r h of Inl e \<Rightarrow> [] | Inr c \<Rightarrow> parentHashes c)"

definition edges :: "repo \<Rightarrow> (jsstring \<times> jsstring) set" where
  "edges r = {(h, p). p \<in> set (fetchedParents r h)}"

abbreviation normParents :: "parent list \<Rightarrow> jsstring list" where
  "normParents ps \<equiv> List.map_filter (\<lambda>p. normalizeHash (normalizeParentHash p)) ps"

text \<open>The identifiers added to the visited set, and those pushed, in the order of the trace.\<close>

fun added :: "event list \<Rightarrow> jsstring list" where
  "added [] = []"
| "added (Add h # t) = h # added t"
| "added (Push p # t) = added t"

fun pushed :: "event list \<Rightarrow> jsstring list" where
  "pushed [] = []"
| "pushed (Add h # t) = pushed t"
| "pushed (Push p # t) = p # pushed t"

definition reachable :: "repo \<Rightarrow> jsstring \<Rightarrow> jsstring set" where
  "reachable r s0 = (edges r)\<^sup>* `` {s0}"

text \<open>Invariants of the loop.\<close>

definition bfs_inv :: "nat \<Rightarrow> bfs_state \<Rightarrow> bool" where
  "bfs_inv m s \<longleftrightarrow>
     length (visited s) \<le> m \<and> distinct (visited s)
     \<and> (\<forall>h\<in>set (visited s) \<union> set (queue s). trimmed h)"

definition trace_inv :: "bfs_state \<Rightarrow> bool" where
  "trace_inv s \<longleftrightarrow>
     added (trace s) = visited s \<and> distinct (visited s)
     \<and> (\<forall>xs p ys. trace s = xs @ Push p # ys \<longrightarrow> p \<notin> set (added xs))"

definition reach_inv :: "repo \<Rightarrow> jsstring \<Rightarrow> bfs_state \<Rightarrow> bool" where
  "reach_inv r s0 s \<longleftrightarrow>
     s0 \<in> set (visited s) \<union> set (queue s)
     \<and> set (visited s) \<union> set (queue s) \<subseteq> reachable r s0
     \<and> (\<forall>v\<in>set (visited s). \<forall>p\<in>set (fetchedParents r v). p \<in> set (visited s) \<union> set (queue s))
     \<and> [] \<notin> set (queue s)"

text \<open>
  The design notes of the specification describe parent extraction as a list of extractor
  strategies tried in priority order, returning the first success: \<open>firstPresent\<close> is that
  reading, to be compared with \<open>normalizeParentHash\<close>.
\<close>

fun firstPresent :: "'a option list \<Rightarrow> 'a option" where
  "firstPresent [] = None"
| "firstPresent (Some x # xs) = Some x"
| "firstPresent (None # xs) = firstPresent xs"

text \<open>
  \<open>withoutFailures r\<close> answers every rejected \<open>getCommit\<close> of \<open>r\<close> with a commit that has
  no parents.
\<close>

definition parentless :: commit where
  "parentless = \<lparr>hash = None, parents = Some [], authorName = [], authorDate = None,
                  commitDate = None, message = []\<rparr>"

definition withoutFailures :: "repo \<Rightarrow> repo" where
  "withoutFailures r =
     r\<lparr>getCommit := (\<lambda>h. case getCommit r h of Inl e \<Rightarrow> Inr parentless | Inr c \<Rightarrow> Inr c)\<rparr>"

section \<open>Fixtures: in-memory repositories\<close>

text \<open>
  An in-memory repository in the manner of the repository's own test: \<open>log\<close> delivers
  at most \<open>maxEntries\<close> commits of the head log, \<open>getCommit\<close> looks the identifier up
  among all commits and is rejected when there is none.
\<close>

definition mk_commit :: "string \<Rightarrow> string list \<Rightarrow> int \<Rightarrow> commit" where
  "mk_commit h ps t =
     \<lparr>hash = Some (js h), parents = Some (map (\<lambda>p. ParentStr (js p)) ps),
      authorName = js ''Test User'', authorDate = Some (TimeValue t), commitDate = None,
      message = js ''m''\<rparr>"

definition fake_repo :: "commit list \<Rightarrow> commit list \<Rightarrow> repo" where
  "fake_repo headLog allCommits =
     \<lparr>log = (\<lambda>n. Inr (take n headLog)),
      getCommit = (\<lambda>h. case find (\<lambda>c. hash c = Some h) allCommits of
                          Some c \<Rightarrow> Inr c
                        | None \<Rightarrow> Inl (Thrown (js ''Commit not found'')))\<rparr>"

text \<open>
  The end-to-end scenario of the test: an initial commit \<open>c0\<close>, the feature branch
  \<open>f1 .. f4\<close> on top of it (the head), and \<open>m1\<close> on main, which the tag points at.
\<close>

definition cI :: commit where "cI = mk_commit ''c0'' [] 0"
definition cF1 :: commit where "cF1 = mk_commit ''f1'' [''c0''] 1"
definition cF2 :: commit where "cF2 = mk_commit ''f2'' [''f1''] 2"
definition cF3 :: commit where "cF3 = mk_commit ''f3'' [''f2''] 3"
definition cM :: commit where "cM = mk_commit ''m1'' [''c0''] 4"
definition cF4 :: commit where "cF4 = mk_commit ''f4'' [''f3''] 5"

definition scenario_repo :: repo where
  "scenario_repo = fake_repo [cF4, cF3, cF2, cF1, cI] [cF4, cF3, cF2, cF1, cI, cM]"

text \<open>A diamond: \<open>a\<close> merges \<open>b\<close> and \<open>c\<close>, which both have the parent \<open>d\<close>.\<close>

definition diamond_repo :: repo where
  "diamond_repo =
     fake_repo []
       [mk_commit ''a'' [''b'', ''c''] 3, mk_commit ''b'' [''d''] 2,
        mk_commit ''c'' [''d''] 1, mk_commit ''d'' [] 0]"

text \<open>The same merge with \<open>b\<close> missing from the repository: \<open>getCommit\<close> of \<open>b\<close> is rejected.\<close>

definition missing_repo :: repo where
  "missing_repo =
     fake_repo []
       [mk_commit ''a'' [''b'', ''c''] 3, mk_commit ''c'' [''d''] 1, mk_commit ''d'' [] 0]"

text \<open>Two histories without a shared root: the head is \<open>x2, x1\<close>, the target is \<open>m1\<close>.\<close>

definition disjoint_repo :: repo where
  "disjoint_repo =
     fake_repo [mk_commit ''x2'' [''x1''] 7, mk_commit ''x1'' [] 6]
       [mk_commit ''x2'' [''x1''] 7, mk_commit ''x1'' [] 6, cM, cI]"

text \<open>A cycle: \<open>a\<close> names \<open>b\<close> as its parent and \<open>b\<close> names \<open>a\<close>.\<close>

definition cyclic_repo :: repo where
  "cyclic_repo = fake_repo [] [mk_commit ''a'' [''b''] 1, mk_commit ''b'' [''a''] 0]"

text \<open>
  The scenario with an untidy head log: \<open>f4\<close> arrives with surrounding blanks, \<open>f3\<close> without
  a hash, \<open>f2\<close> with a hash of blanks only.
\<close>

definition untidy_repo :: repo where
  "untidy_repo =
     fake_repo [cF4\<lparr>hash := Some (js '' f4 '')\<rparr>, cF3\<lparr>hash := None\<rparr>,
                cF2\<lparr>hash := Some (js ''  '')\<rparr>, cF1, cI]
       [cF4, cF3, cF2, cF1, cI, cM]"

section \<open>Normalization and the loop: basic facts\<close>

lemma dropWhile_rev_split: "t = rev (dropWhile P (rev t)) @ rev (takeWhile P (rev t))"
proof -
  have "rev (takeWhile P (rev t) @ dropWhile P (rev t)) = rev (rev t)"
    by (simp only: takeWhile_dropWhile_id)
  then show ?thesis by (simp only: rev_append rev_rev_ident)
qed

lemma trim_empty_iff: "trim s = [] \<longleftrightarrow> list_all isWhiteSpace s"
proof -
  have "trim s = [] \<longleftrightarrow> (\<forall>x\<in>set (dropWhile isWhiteSpace s). isWhiteSpace x)"
    by (simp add: trim_def dropWhile_eq_Nil_conv)
  also have "\<dots> \<longleftrightarrow> dropWhile isWhiteSpace s = []"
  proof
    assume a: "\<forall>x\<in>set (dropWhile isWhiteSpace s). isWhiteSpace x"
    show "dropWhile isWhiteSpace s = []"
    proof (rule ccontr)
      assume n: "dropWhile isWhiteSpace s \<noteq> []"
      then have "\<not> isWhiteSpace (hd (dropWhile isWhiteSpace s))" by (rule hd_dropWhile)
      moreover from n have "hd (dropWhile isWhiteSpace s) \<in> set (dropWhile isWhiteSpace s)" by simp
      ultimately show False using a by blast
    qed
  next
    assume "dropWhile isWhiteSpace s = []"
    then show "\<forall>x\<in>set (dropWhile isWhiteSpace s). isWhiteSpace x"
      by (simp del: dropWhile_eq_Nil_conv)
  qed
  also have "\<dots> \<longleftrightarrow> list_all isWhiteSpace s"
    by (simp add: dropWhile_eq_Nil_conv list_all_iff)
  finally show ?thesis .
qed

lemma trim_trimmed: "trim s \<noteq> [] \<Longrightarrow> trimmed (trim s)"
proof -
  assume ne: "trim s \<noteq> []"
  let ?t = "dropWhile isWhiteSpace s"
  let ?u = "dropWhile isWhiteSpace (rev ?t)"
  from ne have une: "?u \<noteq> []" by (simp add: trim_def)
  then have tne: "?t \<noteq> []" by (auto simp del: dropWhile_eq_Nil_conv)
  have "\<not> isWhiteSpace (hd ?u)" using une by (rule hd_dropWhile)
  then have l: "\<not> isWhiteSpace (last (trim s))" using une by (simp add: trim_def last_rev)
  have "?t = rev ?u @ rev (takeWhile isWhiteSpace (rev ?t))" by (rule dropWhile_rev_split)
  then have "hd ?t = hd (rev ?u @ rev (takeWhile isWhiteSpace (rev ?t)))" by simp
  also have "\<dots> = hd (rev ?u)" using une by simp
  finally have "hd (trim s) = hd ?t" by (simp add: trim_def)
  moreover have "\<not> isWhiteSpace (hd ?t)" using tne by (rule hd_dropWhile)
  ultimately show ?thesis using ne l by (simp add: trimmed_def)
qed

lemma trim_of_trimmed: "trimmed s \<Longrightarrow> trim s = s"
proof -
  assume t: "trimmed s"
  then have 1: "dropWhile isWhiteSpace s = s" by (cases s) (auto simp: trimmed_def)
  from t have "rev s \<noteq> []" "\<not> isWhiteSpace (hd (rev s))" by (auto simp: trimmed_def hd_rev)
  then have "dropWhile isWhiteSpace (rev s) = rev s" by (cases "rev s") auto
  with 1 show ?thesis by (simp add: trim_def)
qed

lemma normalizeHash_Some_trimmed: "normalizeHash x = Some h \<Longrightarrow> trimmed h"
  by (cases x) (auto simp: Let_def trim_trimmed split: if_splits)

lemma normalizeHash_trimmed: "trimmed h \<Longrightarrow> normalizeHash (Some h) = Some h"
  by (simp add: trim_of_trimmed Let_def) (simp add: trimmed_def)

lemma normalizeHash_idem: "normalizeHash (normalizeHash x) = normalizeHash x"
proof (cases "normalizeHash x")
  case None then show ?thesis by simp
next
  case (Some h)
  then show ?thesis using normalizeHash_trimmed [OF normalizeHash_Some_trimmed [OF Some]] by simp
qed

lemma normalizeHash_None_iff: "normalizeHash (Some s) = None \<longleftrightarrow> list_all isWhiteSpace s"
  by (auto simp: Let_def trim_empty_iff)

lemma enqueueParent_fields:
  "visited (enqueueParent p s) = visited s"
  "queue (enqueueParent p s) = queue s @ filter (\<lambda>q. q \<notin> set (visited s)) (normParents [p])"
  "trace (enqueueParent p s) =
     trace s @ map Push (filter (\<lambda>q. q \<notin> set (visited s)) (normParents [p]))"
  unfolding enqueueParent_def by (simp_all add: map_filter_simps split: option.splits)

lemma fold_enqueueParent:
  "visited (fold enqueueParent ps s) = visited s \<and>
   queue (fold enqueueParent ps s) =
     queue s @ filter (\<lambda>q. q \<notin> set (visited s)) (normParents ps) \<and>
   trace (fold enqueueParent ps s) =
     trace s @ map Push (filter (\<lambda>q. q \<notin> set (visited s)) (normParents ps))"
proof (induction ps arbitrary: s)
  case Nil
  show ?case by (simp add: map_filter_simps)
next
  case (Cons p ps)
  have np: "normParents (p # ps) = normParents [p] @ normParents ps"
    by (simp add: map_filter_simps split: option.splits)
  have "fold enqueueParent (p # ps) s = fold enqueueParent ps (enqueueParent p s)" by simp
  with Cons.IH [of "enqueueParent p s"] show ?case
    by (simp only: enqueueParent_fields np filter_append map_append append_assoc) 
qed

lemma loop_body_skip:
  "queue s = h # rest \<Longrightarrow> h = [] \<or> h \<in> set (visited s) \<Longrightarrow> loop_body r s = s\<lparr>queue := rest\<rparr>"
  by (auto simp: loop_body_def)

lemma loop_body_visit:
  assumes "queue s = h # rest" "h \<noteq> []" "h \<notin> set (visited s)"
  shows "visited (loop_body r s) = visited s @ [h]"
    and "queue (loop_body r s) =
           rest @ filter (\<lambda>p. p \<notin> set (visited s @ [h])) (fetchedParents r h)"
    and "trace (loop_body r s) =
           trace s @ Add h #
             map Push (filter (\<lambda>p. p \<notin> set (visited s @ [h])) (fetchedParents r h))"
proof -
  let ?s2 = "s\<lparr>queue := rest, visited := visited s @ [h], trace := trace s @ [Add h]\<rparr>"
  have body: "loop_body r s =
      (case getCommit r h of Inl e \<Rightarrow> ?s2 | Inr c \<Rightarrow> fold enqueueParent (parentsArray c) ?s2)"
    using assms unfolding loop_body_def by (simp add: Let_def set_add_def)
  show "visited (loop_body r s) = visited s @ [h]"
    unfolding body using fold_enqueueParent [of _ ?s2] by (simp split: sum.splits)
  show "queue (loop_body r s) =
           rest @ filter (\<lambda>p. p \<notin> set (visited s @ [h])) (fetchedParents r h)"
    unfolding body fetchedParents_def parentHashes_def
    using fold_enqueueParent [of _ ?s2] by (simp split: sum.splits)
  show "trace (loop_body r s) =
           trace s @ Add h #
             map Push (filter (\<lambda>p. p \<notin> set (visited s @ [h])) (fetchedParents r h))"
    unfolding body fetchedParents_def parentHashes_def
    using fold_enqueueParent [of _ ?s2] by (simp split: sum.splits)
qed

lemma while_loop_rule:
  assumes "I s" and "\<And>t. I t \<Longrightarrow> loop_cond m t \<Longrightarrow> I (loop_body r t)"
  shows "I (while_loop r m s) \<and> \<not> loop_cond m (while_loop r m s)"
  using assms
proof (induction r m s rule: while_loop.induct)
  case (1 r m s)
  show ?case
  proof (cases "loop_cond m s")
    case True
    then have "I (loop_body r s)" using "1.prems" by blast
    with True "1.IH" "1.prems"(2) show ?thesis by (simp add: while_loop.simps [of r m s])
  next
    case False
    with "1.prems"(1) show ?thesis by (simp add: while_loop.simps [of r m s])
  qed
qed

lemma while_loop_iterates:
  "\<exists>n. while_loop r m s = (loop_body r ^^ n) s
       \<and> (\<forall>k<n. loop_cond m ((loop_body r ^^ k) s))
       \<and> \<not> loop_cond m ((loop_body r ^^ n) s)"
proof (induction r m s rule: while_loop.induct)
  case (1 r m s)
  show ?case
  proof (cases "loop_cond m s")
    case True
    from "1.IH" [OF True] obtain n where
      n: "while_loop r m (loop_body r s) = (loop_body r ^^ n) (loop_body r s)"
         "\<forall>k<n. loop_cond m ((loop_body r ^^ k) (loop_body r s))"
         "\<not> loop_cond m ((loop_body r ^^ n) (loop_body r s))" by blast
    have "while_loop r m s = (loop_body r ^^ Suc n) s"
      using True n(1) by (simp add: while_loop.simps [of r m s] funpow_swap1)
    moreover have "\<forall>k<Suc n. loop_cond m ((loop_body r ^^ k) s)"
    proof (intro allI impI)
      fix k assume "k < Suc n"
      then show "loop_cond m ((loop_body r ^^ k) s)"
        using True n(2) by (cases k) (simp_all add: funpow_swap1)
    qed
    moreover have "\<not> loop_cond m ((loop_body r ^^ Suc n) s)"
      using n(3) by (simp add: funpow_swap1)
    ultimately show ?thesis by blast
  next
    case False
    then have "while_loop r m s = (loop_body r ^^ 0) s" by (simp add: while_loop.simps [of r m s])
    with False show ?thesis by (intro exI [of _ 0]) simp
  qed
qed

lemma set_map_filter_iff: "y \<in> set (List.map_filter f xs) \<longleftrightarrow> (\<exists>x\<in>set xs. f x = Some y)"
  by (induction xs) (auto split: option.splits)

lemma fetchedParents_trimmed: "p \<in> set (fetchedParents r h) \<Longrightarrow> trimmed p"
  by (auto simp: fetchedParents_def parentHashes_def set_map_filter_iff
           dest: normalizeHash_Some_trimmed split: sum.splits)

lemma bfs_inv_step:
  assumes "bfs_inv m s" "loop_cond m s"
  shows "bfs_inv m (loop_body r s)"
proof -
  from assms(2) obtain h rest where q: "queue s = h # rest" and lt: "length (visited s) < m"
    by (cases "queue s") (auto simp: loop_cond_def)
  show ?thesis
  proof (cases "h = [] \<or> h \<in> set (visited s)")
    case True
    from loop_body_skip [OF q True] assms(1) q show ?thesis by (auto simp: bfs_inv_def)
  next
    case False
    then have h: "h \<noteq> []" "h \<notin> set (visited s)" by auto
    note lb = loop_body_visit [OF q h, of r]
    from assms(1) q lt h show ?thesis
      unfolding bfs_inv_def lb by (auto dest: fetchedParents_trimmed)
  qed
qed

lemma initial_state_inv: "bfs_inv m (initial_state startHash)"
proof (cases "normalizeHash (Some startHash)")
  case None
  then show ?thesis by (simp add: bfs_inv_def initial_state_def)
next
  case (Some n)
  from normalizeHash_Some_trimmed [OF Some] Some show ?thesis
    by (simp add: bfs_inv_def initial_state_def)
qed

lemma collect_run_inv:
  "bfs_inv m (collect_run r startHash m) \<and> \<not> loop_cond m (collect_run r startHash m)"
  unfolding collect_run_def
  by (rule while_loop_rule [where I = "bfs_inv m"]) (auto intro: initial_state_inv bfs_inv_step)

lemma added_append: "added (t @ u) = added t @ added u"
  by (induction t rule: added.induct) auto

lemma added_map_Push: "added (map Push ps) = []"
  by (induction ps) auto

lemma split_map_Push:
  "map Push ps = xs @ Push p # ys \<Longrightarrow> p \<in> set ps \<and> added xs = []"
proof (induction ps arbitrary: xs)
  case Nil then show ?case by simp
next
  case (Cons q ps)
  then show ?case by (cases xs) auto
qed

lemma trace_inv_step:
  assumes "trace_inv s" "loop_cond m s"
  shows "trace_inv (loop_body r s)"
proof -
  from assms(2) obtain h rest where q: "queue s = h # rest"
    by (cases "queue s") (auto simp: loop_cond_def)
  show ?thesis
  proof (cases "h = [] \<or> h \<in> set (visited s)")
    case True
    from loop_body_skip [OF q True] assms(1) show ?thesis by (auto simp: trace_inv_def)
  next
    case False
    then have h: "h \<noteq> []" "h \<notin> set (visited s)" by auto
    note lb = loop_body_visit [OF q h, of r]
    let ?new = "filter (\<lambda>p. p \<notin> set (visited s @ [h])) (fetchedParents r h)"
    have a: "added (trace (loop_body r s)) = visited (loop_body r s)"
      using assms(1) unfolding lb by (simp add: trace_inv_def added_append added_map_Push)
    have d: "distinct (visited (loop_body r s))"
      using assms(1) h unfolding lb by (simp add: trace_inv_def)
    have p: "p \<notin> set (added xs)" if eq: "trace (loop_body r s) = xs @ Push p # ys" for xs p ys
    proof -
      from eq have eq': "trace s @ Add h # map Push ?new = xs @ Push p # ys" unfolding lb .
      then consider
        (old) us where "trace s = xs @ Push p # us"
      | (new) us where "xs = trace s @ us" "Add h # map Push ?new = us @ Push p # ys"
        by (auto simp: append_eq_append_conv2 append_eq_Cons_conv Cons_eq_append_conv)
      then show ?thesis
      proof cases
        case old
        with assms(1) show ?thesis by (auto simp: trace_inv_def)
      next
        case new
        from new(2) obtain vs where us: "us = Add h # vs" and vs: "map Push ?new = vs @ Push p # ys"
          by (cases us) auto
        from split_map_Push [OF vs] have "p \<in> set ?new" "added vs = []" by auto
        with new(1) us assms(1) show ?thesis
          by (auto simp: trace_inv_def added_append)
      qed
    qed
    from a d p show ?thesis unfolding trace_inv_def by blast
  qed
qed

lemma collect_run_trace_inv: "trace_inv (collect_run r startHash m)"
proof -
  have "trace_inv (initial_state startHash)" by (simp add: trace_inv_def initial_state_def)
  then have "trace_inv (while_loop r m (initial_state startHash))
      \<and> \<not> loop_cond m (while_loop r m (initial_state startHash))"
    by (rule while_loop_rule) (rule trace_inv_step)
  then show ?thesis unfolding collect_run_def by blast
qed

lemma reachable_step: "v \<in> reachable r s0 \<Longrightarrow> p \<in> set (fetchedParents r v) \<Longrightarrow> p \<in> reachable r s0"
  unfolding reachable_def edges_def by (auto intro: rtrancl_into_rtrancl)

lemma reach_inv_step:
  assumes "reach_inv r s0 s" "loop_cond m s"
  shows "reach_inv r s0 (loop_body r s)"
proof -
  from assms(2) obtain h rest where q: "queue s = h # rest"
    by (cases "queue s") (auto simp: loop_cond_def)
  from assms(1) q have hne: "h \<noteq> []" by (auto simp: reach_inv_def)
  show ?thesis
  proof (cases "h \<in> set (visited s)")
    case True
    then have "h = [] \<or> h \<in> set (visited s)" by simp
    from loop_body_skip [OF q this] assms(1) q True show ?thesis
      by (auto simp: reach_inv_def)
  next
    case False
    note lb = loop_body_visit [OF q hne False, of r]
    from assms(1) q have hr: "h \<in> reachable r s0" by (auto simp: reach_inv_def)
    have 1: "s0 \<in> set (visited (loop_body r s)) \<union> set (queue (loop_body r s))"
      using assms(1) q unfolding lb by (auto simp: reach_inv_def)
    have 2: "set (visited (loop_body r s)) \<union> set (queue (loop_body r s)) \<subseteq> reachable r s0"
      using assms(1) q hr unfolding lb by (auto simp: reach_inv_def dest: reachable_step)
    have 3: "\<forall>v\<in>set (visited (loop_body r s)). \<forall>p\<in>set (fetchedParents r v).
               p \<in> set (visited (loop_body r s)) \<union> set (queue (loop_body r s))"
      using assms(1) q unfolding lb by (auto simp: reach_inv_def)
    have 4: "[] \<notin> set (queue (loop_body r s))"
      using assms(1) q unfolding lb by (auto simp: reach_inv_def trimmed_def dest: fetchedParents_trimmed)
    from 1 2 3 4 show ?thesis unfolding reach_inv_def by blast
  qed
qed

lemma reach_inv_closed:
  assumes "reach_inv r s0 s" "queue s = []"
  shows "set (visited s) = reachable r s0"
proof
  show "set (visited s) \<subseteq> reachable r s0" using assms by (auto simp: reach_inv_def)
  show "reachable r s0 \<subseteq> set (visited s)"
  proof
    fix x assume "x \<in> reachable r s0"
    then have "(s0, x) \<in> (edges r)\<^sup>*" by (simp add: reachable_def)
    then show "x \<in> set (visited s)"
    proof (induction rule: rtrancl_induct)
      case base
      from assms show ?case by (simp add: reach_inv_def)
    next
      case (step y z)
      from step.hyps(2) have "z \<in> set (fetchedParents r y)" by (simp add: edges_def)
      with step.IH assms show ?case by (auto simp: reach_inv_def)
    qed
  qed
qed

lemma collect_run_reach:
  assumes "normalizeHash (Some startHash) = Some s0"
  shows "reach_inv r s0 (collect_run r startHash m)"
proof -
  from normalizeHash_Some_trimmed [OF assms] have "s0 \<noteq> []" by (simp add: trimmed_def)
  with assms have "reach_inv r s0 (initial_state startHash)"
    by (simp add: reach_inv_def initial_state_def reachable_def)
  then have "reach_inv r s0 (while_loop r m (initial_state startHash))
      \<and> \<not> loop_cond m (while_loop r m (initial_state startHash))"
    by (rule while_loop_rule) (rule reach_inv_step)
  then show ?thesis unfolding collect_run_def by blast
qed

lemma nth_notin_take: "distinct xs \<Longrightarrow> i < length xs \<Longrightarrow> xs ! i \<notin> set (take i xs)"
proof -
  assume d: "distinct xs" and i: "i < length xs"
  from d have "distinct (take (Suc i) xs)" by (rule distinct_take)
  with i show ?thesis by (simp add: take_Suc_conv_app_nth)
qed

lemma chain_loop:
  assumes d: "distinct chain" and t: "\<forall>h\<in>set chain. trimmed h"
    and len: "m < length chain"
    and par: "\<forall>i. Suc i < length chain \<longrightarrow> fetchedParents r (chain ! i) = [chain ! Suc i]"
  shows "i \<le> m \<Longrightarrow> visited s = take i chain \<Longrightarrow> queue s = [chain ! i]
           \<Longrightarrow> visited (while_loop r m s) = take m chain"
proof (induction "m - i" arbitrary: i s)
  case 0
  then have "i = m" by simp
  with "0.prems" len have "\<not> loop_cond m s" by (simp add: loop_cond_def)
  with \<open>i = m\<close> "0.prems" show ?case by (simp add: while_loop.simps [of r m s])
next
  case (Suc n)
  then have im: "i < m" by simp
  with len have il: "i < length chain" "Suc i < length chain" by simp_all
  from Suc.prems im il have c: "loop_cond m s" by (simp add: loop_cond_def)
  have q: "queue s = chain ! i # []" using Suc.prems by simp
  from t il have hne: "chain ! i \<noteq> []" by (auto simp: trimmed_def)
  from nth_notin_take [OF d il(1)] Suc.prems have nv: "chain ! i \<notin> set (visited s)" by simp
  note lb = loop_body_visit [OF q hne nv, of r]
  have v': "visited (loop_body r s) = take (Suc i) chain"
    unfolding lb using Suc.prems il by (simp add: take_Suc_conv_app_nth)
  from nth_notin_take [OF d il(2)] have "chain ! Suc i \<notin> set (take (Suc i) chain)" .
  then have q': "queue (loop_body r s) = [chain ! Suc i]"
    unfolding lb using par il Suc.prems by (simp add: take_Suc_conv_app_nth)
  have "n = m - Suc i" using Suc.hyps(2) by simp
  from Suc.hyps(1) [OF this _ v' q'] im
  have "visited (while_loop r m (loop_body r s)) = take m chain" by simp
  with c show ?case by (simp add: while_loop.simps [of r m s])
qed

lemmas fixture_defs = scenario_repo_def diamond_repo_def missing_repo_def disjoint_repo_def
  cyclic_repo_def untidy_repo_def fake_repo_def mk_commit_def
  cI_def cF1_def cF2_def cF3_def cF4_def cM_def js_def

lemma loop_body_getCommit: "getCommit r = getCommit r' \<Longrightarrow> loop_body r s = loop_body r' s"
  by (auto simp: loop_body_def Let_def split: list.splits)

lemma while_loop_body_eq:
  "(\<And>t. loop_body r t = loop_body r' t) \<Longrightarrow> while_loop r m s = while_loop r' m s"
proof (induction r m s rule: while_loop.induct)
  case (1 r m s)
  show ?case
  proof (cases "loop_cond m s")
    case True
    with "1.IH" [OF True "1.prems"] "1.prems" show ?thesis
      by (simp add: while_loop.simps [of r m s] while_loop.simps [of r' m s])
  next
    case False
    then show ?thesis by (simp add: while_loop.simps [of r m s] while_loop.simps [of r' m s])
  qed
qed

lemma collect_getCommit:
  "getCommit r = getCommit r' \<Longrightarrow> collectAncestorHashes r h m = collectAncestorHashes r' h m"
  unfolding collectAncestorHashes_def collect_run_def
  by (rule arg_cong [where f = visited], rule while_loop_body_eq, rule loop_body_getCommit)

section \<open>Identifier normalization\<close>

text \<open>
  Claim C8. Normalizing an identifier twice is the same as normalizing it once, for every
  string and for the absent identifier. \<open>" abc "\<close> normalizes to \<open>"abc"\<close>; the empty string
  and \<open>"   "\<close> normalize to absent, and a string normalizes to absent exactly when it
  consists of white space only. When the start identifier normalizes to absent, the loop of
  \<open>collectAncestorHashes\<close> is not entered (its condition is false in the initial state),
  nothing is added or pushed, and the empty set is returned.
\<close>

theorem normalize_idempotent:
  "normalizeHash (normalizeHash x) = normalizeHash x
   \<and> normalizeHash (Some (js '' abc '')) = Some (js ''abc'')
   \<and> normalizeHash (Some (js '''')) = None
   \<and> normalizeHash (Some (js ''   '')) = None
   \<and> (list_all isWhiteSpace s \<longleftrightarrow> normalizeHash (Some s) = None)
   \<and> (normalizeHash (Some startHash) = None \<longrightarrow>
        \<not> loop_cond maxCommits (initial_state startHash)
        \<and> trace (collect_run r startHash maxCommits) = []
        \<and> collectAncestorHashes r startHash maxCommits = [])"
proof -
  have a: "normalizeHash (Some (js '' abc '')) = Some (js ''abc'')"
    by (simp add: js_def trim_def isWhiteSpace_def)
  have b: "normalizeHash (Some (js '''')) = None" by (simp add: js_def)
  have c: "normalizeHash (Some (js ''   '')) = None"
    by (simp add: js_def trim_def isWhiteSpace_def)
  have d: "\<not> loop_cond maxCommits (initial_state startHash)
        \<and> trace (collect_run r startHash maxCommits) = []
        \<and> collectAncestorHashes r startHash maxCommits = []"
    if "normalizeHash (Some startHash) = None"
  proof -
    from that have q: "queue (initial_state startHash) = []" by (simp add: initial_state_def)
    then have n: "\<not> loop_cond maxCommits (initial_state startHash)" by (simp add: loop_cond_def)
    then have "collect_run r startHash maxCommits = initial_state startHash"
      by (simp add: collect_run_def while_loop.simps [of r maxCommits "initial_state startHash"])
    with n show ?thesis by (simp add: collectAncestorHashes_def initial_state_def)
  qed
  have e: "list_all isWhiteSpace s \<longleftrightarrow> normalizeHash (Some s) = None"
    by (rule normalizeHash_None_iff [symmetric])
  show ?thesis
    by (intro conjI impI)
       (rule normalizeHash_idem a b c e
        | rule d [THEN conjunct1] d [THEN conjunct2, THEN conjunct1]
               d [THEN conjunct2, THEN conjunct2], assumption)+
qed

theorem normalize_idempotent_witness:
  "normalizeHash (Some (js ''   '')) = None
   \<and> collectAncestorHashes scenario_repo (js ''   '') 200 = []"
proof -
  have 1: "normalizeHash (Some (js ''   '')) = None"
    by (simp add: js_def trim_def isWhiteSpace_def)
  from normalize_idempotent [of None "[]" "js ''   ''" 200 scenario_repo]
  have "normalizeHash (Some (js ''   '')) = None \<longrightarrow>
          collectAncestorHashes scenario_repo (js ''   '') 200 = []"
    by (elim conjE) (intro impI, elim impE, assumption, elim conjE, assumption)
  with 1 show ?thesis by (intro conjI) (assumption, elim impE, assumption+)
qed

section \<open>Parent identifier extraction\<close>

text \<open>
  Claim C9. A parent given as a non-empty bare string yields that string. A parent object
  yields the first of its properties \<open>hash\<close>, \<open>sha\<close>, \<open>commit\<close> that is a string, in this
  order. An object with none of the three yields no identifier; the body of the loop over
  the parents then leaves the state as it is (nothing is pushed, nothing is raised), and a
  parents array with such an entry is processed exactly as the array without the entry.
\<close>

theorem parent_hash_extraction:
  "normalizeParentHash (ParentStr (u # s)) = Some (u # s)
   \<and> normalizeParentHash (ParentObj h sha c) = firstPresent [h, sha, c]
   \<and> normalizeParentHash (ParentObj None None None) = None
   \<and> enqueueParent (ParentObj None None None) st = st
   \<and> fold enqueueParent (ps @ ParentObj None None None # qs) st = fold enqueueParent (ps @ qs) st"
proof -
  have 1: "normalizeParentHash (ParentObj h sha c) = firstPresent [h, sha, c]"
    by (cases h; cases sha; cases c) simp_all
  have 2: "enqueueParent (ParentObj None None None) t = t" for t
    unfolding enqueueParent_def by simp
  have 3: "fold enqueueParent (ps @ ParentObj None None None # qs) st = fold enqueueParent (ps @ qs) st"
    by (simp only: fold_append fold_simps comp_apply 2)
  from 1 2 3 show ?thesis by simp
qed

theorem parent_hash_extraction_witness:
  "normalizeParentHash (ParentObj None (Some (js ''f3'')) (Some (js ''f2''))) = Some (js ''f3'')
   \<and> fold enqueueParent [ParentObj None None None, ParentStr (js ''f3'')] (initial_state (js ''f4''))
       = \<lparr>visited = [], queue = [js ''f4'', js ''f3''], trace = [Push (js ''f3'')]\<rparr>"
  using parent_hash_extraction [of "0x66" "[0x33]" None "Some (js ''f3'')" "Some (js ''f2'')"
     "initial_state (js ''f4'')" "[]" "[ParentStr (js ''f3'')]"]
  by (simp add: js_def enqueueParent_def initial_state_def trim_def isWhiteSpace_def)

section \<open>Traversal: what is added and what is pushed\<close>

text \<open>
  In the diamond, \<open>d\<close> is pushed when \<open>b\<close> is processed and again when \<open>c\<close> is processed,
  since it is still waiting in the queue and not yet in the visited set.
\<close>

theorem pushed_twice_in_diamond:
  "\<not> distinct (pushed (trace (collect_run diamond_repo (js ''a'') 200)))"
  by code_simp

text \<open>
  Claim C2, as amended. In the trace of every call the identifiers added to the visited set
  are pairwise distinct, and they are the returned set. An identifier is pushed only while
  it is not in the visited set: no push of \<open>p\<close> comes after the addition of \<open>p\<close>. The test
  at the push is against the visited set alone, so an identifier that waits in the queue
  can be pushed again.
\<close>

theorem visit_once_push_unvisited:
  "distinct (added (trace (collect_run r startHash maxCommits)))
   \<and> added (trace (collect_run r startHash maxCommits)) = collectAncestorHashes r startHash maxCommits
   \<and> (trace (collect_run r startHash maxCommits) = xs @ Push p # ys \<longrightarrow> p \<notin> set (added xs))"
  using collect_run_trace_inv [of r startHash maxCommits]
  unfolding trace_inv_def collectAncestorHashes_def by simp

lemma diamond_trace:
  "trace (collect_run diamond_repo (js ''a'') 200) =
     [Add (js ''a''), Push (js ''b''), Push (js ''c''), Add (js ''b''), Push (js ''d''),
      Add (js ''c'')] @ Push (js ''d'') # [Add (js ''d'')]"
  by code_simp

theorem visit_once_push_unvisited_witness:
  "trace (collect_run diamond_repo (js ''a'') 200) =
     [Add (js ''a''), Push (js ''b''), Push (js ''c''), Add (js ''b''), Push (js ''d''),
      Add (js ''c'')] @ Push (js ''d'') # [Add (js ''d'')]
   \<and> js ''d'' \<notin> set (added [Add (js ''a''), Push (js ''b''), Push (js ''c''), Add (js ''b''),
                              Push (js ''d''), Add (js ''c'')])
   \<and> collectAncestorHashes diamond_repo (js ''a'') 200 = [js ''a'', js ''b'', js ''c'', js ''d'']"
proof -
  note t = diamond_trace
  from visit_once_push_unvisited [of diamond_repo "js ''a''" 200
      "[Add (js ''a''), Push (js ''b''), Push (js ''c''), Add (js ''b''), Push (js ''d''), Add (js ''c'')]"
      "js ''d''" "[Add (js ''d'')]"] t
  have "js ''d'' \<notin> set (added [Add (js ''a''), Push (js ''b''), Push (js ''c''), Add (js ''b''),
                              Push (js ''d''), Add (js ''c'')])"
    and "added (trace (collect_run diamond_repo (js ''a'') 200))
           = collectAncestorHashes diamond_repo (js ''a'') 200" by blast+
  with t show ?thesis by simp
qed

section \<open>Termination and the cap\<close>

text \<open>
  Claim C3. For every repository, start identifier and cap, the loop stops after finitely
  many iterations: the final state is the \<open>n\<close>-th iterate of the loop body on the initial
  state, where \<open>n\<close> is the first iteration count at which the loop condition is false. The
  returned set has at most \<open>maxCommits\<close> elements. On a linear chain of \<open>maxCommits + k\<close>
  distinct commits, \<open>k > 0\<close>, whose fetches all succeed, started at the first commit of the
  chain, the call returns the first \<open>maxCommits\<close> identifiers of the chain, hence exactly
  \<open>maxCommits\<close> identifiers.
\<close>

theorem collect_terminates_bounded:
  "(\<exists>n. collect_run r startHash maxCommits = (loop_body r ^^ n) (initial_state startHash)
        \<and> (\<forall>j<n. loop_cond maxCommits ((loop_body r ^^ j) (initial_state startHash)))
        \<and> \<not> loop_cond maxCommits ((loop_body r ^^ n) (initial_state startHash)))
   \<and> length (collectAncestorHashes r startHash maxCommits) \<le> maxCommits
   \<and> distinct (collectAncestorHashes r startHash maxCommits)
   \<and> (distinct chain \<and> length chain = maxCommits + k \<and> 0 < k
        \<and> normalizeHash (Some startHash) = Some (chain ! 0)
        \<and> (\<forall>i<length chain. \<exists>c. getCommit r (chain ! i) = Inr c
              \<and> parentHashes c = (if Suc i < length chain then [chain ! Suc i] else []))
      \<longrightarrow> collectAncestorHashes r startHash maxCommits = take maxCommits chain
          \<and> card (set (collectAncestorHashes r startHash maxCommits)) = maxCommits)"
proof (intro conjI impI)
  show "\<exists>n. collect_run r startHash maxCommits = (loop_body r ^^ n) (initial_state startHash)
        \<and> (\<forall>j<n. loop_cond maxCommits ((loop_body r ^^ j) (initial_state startHash)))
        \<and> \<not> loop_cond maxCommits ((loop_body r ^^ n) (initial_state startHash))"
    unfolding collect_run_def by (rule while_loop_iterates)
next
  from collect_run_inv [of maxCommits r startHash]
  show "length (collectAncestorHashes r startHash maxCommits) \<le> maxCommits"
    and "distinct (collectAncestorHashes r startHash maxCommits)"
    by (simp_all add: bfs_inv_def collectAncestorHashes_def)
next
  assume h: "distinct chain \<and> length chain = maxCommits + k \<and> 0 < k
        \<and> normalizeHash (Some startHash) = Some (chain ! 0)
        \<and> (\<forall>i<length chain. \<exists>c. getCommit r (chain ! i) = Inr c
              \<and> parentHashes c = (if Suc i < length chain then [chain ! Suc i] else []))"
  then have d: "distinct chain" and len: "maxCommits < length chain"
    and st: "normalizeHash (Some startHash) = Some (chain ! 0)" by simp_all
  have par: "\<forall>i. Suc i < length chain \<longrightarrow> fetchedParents r (chain ! i) = [chain ! Suc i]"
  proof (intro allI impI)
    fix i assume i: "Suc i < length chain"
    then have "i < length chain" by simp
    with h obtain c where "getCommit r (chain ! i) = Inr c"
      "parentHashes c = (if Suc i < length chain then [chain ! Suc i] else [])" by blast
    with i show "fetchedParents r (chain ! i) = [chain ! Suc i]" by (simp add: fetchedParents_def)
  qed
  have tr: "\<forall>x\<in>set chain. trimmed x"
  proof
    fix x assume "x \<in> set chain"
    then obtain j where j: "j < length chain" "x = chain ! j" by (auto simp: in_set_conv_nth)
    show "trimmed x"
    proof (cases j)
      case 0
      with j normalizeHash_Some_trimmed [OF st] show ?thesis by simp
    next
      case (Suc i)
      with j par have "x \<in> set (fetchedParents r (chain ! i))" by simp
      then show ?thesis by (rule fetchedParents_trimmed)
    qed
  qed
  from st have "visited (initial_state startHash) = take 0 chain"
    and "queue (initial_state startHash) = [chain ! 0]" by (simp_all add: initial_state_def)
  from chain_loop [OF d tr len par _ this]
  have eq: "collectAncestorHashes r startHash maxCommits = take maxCommits chain"
    by (simp add: collectAncestorHashes_def collect_run_def)
  show "collectAncestorHashes r startHash maxCommits = take maxCommits chain" by (rule eq)
  from d have "distinct (take maxCommits chain)" by (rule distinct_take)
  then have "card (set (take maxCommits chain)) = length (take maxCommits chain)"
    by (rule distinct_card)
  with len show "card (set (collectAncestorHashes r startHash maxCommits)) = maxCommits"
    unfolding eq by simp
qed

lemma scenario_chain:
  "\<forall>i<length [js ''f4'', js ''f3'', js ''f2'', js ''f1'', js ''c0''].
      \<exists>c. getCommit scenario_repo ([js ''f4'', js ''f3'', js ''f2'', js ''f1'', js ''c0''] ! i) = Inr c
        \<and> parentHashes c =
            (if Suc i < length [js ''f4'', js ''f3'', js ''f2'', js ''f1'', js ''c0'']
             then [[js ''f4'', js ''f3'', js ''f2'', js ''f1'', js ''c0''] ! Suc i] else [])"
proof (intro allI impI)
  fix i assume "i < length [js ''f4'', js ''f3'', js ''f2'', js ''f1'', js ''c0'']"
  then consider "i = 0" | "i = 1" | "i = 2" | "i = 3" | "i = 4" by fastforce
  then show "\<exists>c. getCommit scenario_repo ([js ''f4'', js ''f3'', js ''f2'', js ''f1'', js ''c0''] ! i) = Inr c
        \<and> parentHashes c =
            (if Suc i < length [js ''f4'', js ''f3'', js ''f2'', js ''f1'', js ''c0'']
             then [[js ''f4'', js ''f3'', js ''f2'', js ''f1'', js ''c0''] ! Suc i] else [])"
    by cases
       (simp_all add: fixture_defs parentHashes_def parentsArray_def trim_def isWhiteSpace_def)
qed

theorem collect_terminates_bounded_witness:
  "distinct [js ''f4'', js ''f3'', js ''f2'', js ''f1'', js ''c0'']
   \<and> length [js ''f4'', js ''f3'', js ''f2'', js ''f1'', js ''c0''] = 3 + 2
   \<and> normalizeHash (Some (js '' f4 '')) = Some (js ''f4'')
   \<and> collectAncestorHashes scenario_repo (js '' f4 '') 3 = [js ''f4'', js ''f3'', js ''f2'']
   \<and> card (set (collectAncestorHashes scenario_repo (js '' f4 '') 3)) = 3"
proof -
  have 1: "distinct [js ''f4'', js ''f3'', js ''f2'', js ''f1'', js ''c0'']" by (simp add: js_def)
  have 2: "normalizeHash (Some (js '' f4 '')) = Some ([js ''f4'', js ''f3'', js ''f2'', js ''f1'', js ''c0''] ! 0)"
    by (simp add: js_def trim_def isWhiteSpace_def)
  from collect_terminates_bounded [of scenario_repo "js '' f4 ''" 3
      "[js ''f4'', js ''f3'', js ''f2'', js ''f1'', js ''c0'']" 2] 1 2 scenario_chain
  have "collectAncestorHashes scenario_repo (js '' f4 '') 3
          = take 3 [js ''f4'', js ''f3'', js ''f2'', js ''f1'', js ''c0'']
        \<and> card (set (collectAncestorHashes scenario_repo (js '' f4 '') 3)) = 3"
    by (elim conjE impE) (intro conjI, simp_all)
  with 1 2 show ?thesis by simp
qed

text \<open>A cycle of parents is traversed once around.\<close>

lemma cyclic_example:
  "collectAncestorHashes cyclic_repo (js ''a'') 200 = [js ''a'', js ''b'']"
  unfolding cyclic_repo_def by code_simp

section \<open>Rejected fetches\<close>

lemma loop_body_withoutFailures: "loop_body r s = loop_body (withoutFailures r) s"
  unfolding loop_body_def withoutFailures_def
  by (auto simp: Let_def parentless_def parentsArray_def split: list.splits sum.splits)

text \<open>
  Claim C4. When \<open>getCommit\<close> is rejected for the identifier \<open>f\<close> taken from the queue, the
  iteration adds \<open>f\<close> to the visited set, pushes nothing and raises nothing. The call
  returns what it returns on the repository in which every rejected fetch is answered by a
  commit without parents. The returned set lies within the identifiers reachable from the
  start along the parent edges of the commits that can be fetched. When it stays below the
  cap, and also whenever the reachable set is finite and fits within the cap, it is that
  set: every identifier reachable on a path that does not pass through a failing node is
  returned, and so is every failing node that is reached.
\<close>

theorem missing_node_resilience:
  "(queue s = f # rest \<and> f \<noteq> [] \<and> f \<notin> set (visited s) \<and> getCommit r f = Inl e \<longrightarrow>
       loop_body r s = s\<lparr>queue := rest, visited := visited s @ [f], trace := trace s @ [Add f]\<rparr>)
   \<and> collectAncestorHashes r startHash maxCommits
       = collectAncestorHashes (withoutFailures r) startHash maxCommits
   \<and> (normalizeHash (Some startHash) = Some s0 \<longrightarrow>
        set (collectAncestorHashes r startHash maxCommits) \<subseteq> reachable r s0
        \<and> (length (collectAncestorHashes r startHash maxCommits) < maxCommits \<longrightarrow>
             set (collectAncestorHashes r startHash maxCommits) = reachable r s0)
        \<and> (finite (reachable r s0) \<and> card (reachable r s0) \<le> maxCommits \<longrightarrow>
             set (collectAncestorHashes r startHash maxCommits) = reachable r s0))"
proof -
  let ?res = "collectAncestorHashes r startHash maxCommits"
  have step: "loop_body r s
      = s\<lparr>queue := rest, visited := visited s @ [f], trace := trace s @ [Add f]\<rparr>"
    if "queue s = f # rest \<and> f \<noteq> [] \<and> f \<notin> set (visited s) \<and> getCommit r f = Inl e"
    using that by (simp add: loop_body_def Let_def set_add_def)
  have same: "?res = collectAncestorHashes (withoutFailures r) startHash maxCommits"
    unfolding collectAncestorHashes_def collect_run_def
    by (rule arg_cong [where f = visited], rule while_loop_body_eq, rule loop_body_withoutFailures)
  have sub: "set ?res \<subseteq> reachable r s0" if st: "normalizeHash (Some startHash) = Some s0"
    using collect_run_reach [OF st, of r maxCommits]
    by (simp add: reach_inv_def collectAncestorHashes_def)
  have below: "set ?res = reachable r s0"
    if st: "normalizeHash (Some startHash) = Some s0" and lt: "length ?res < maxCommits"
  proof -
    from collect_run_inv [of maxCommits r startHash] lt
    have "queue (collect_run r startHash maxCommits) = []"
      by (simp add: loop_cond_def collectAncestorHashes_def)
    with collect_run_reach [OF st, of r maxCommits] show ?thesis
      unfolding collectAncestorHashes_def by (rule reach_inv_closed)
  qed
  have fits: "set ?res = reachable r s0"
    if st: "normalizeHash (Some startHash) = Some s0"
      and fin: "finite (reachable r s0)" and c: "card (reachable r s0) \<le> maxCommits"
  proof (cases "length ?res < maxCommits")
    case True
    with st show ?thesis by (rule below)
  next
    case False
    from collect_run_inv [of maxCommits r startHash]
    have "distinct ?res" by (simp add: bfs_inv_def collectAncestorHashes_def)
    then have "card (set ?res) = length ?res" by (rule distinct_card)
    with False c have "card (reachable r s0) \<le> card (set ?res)" by simp
    with fin sub [OF st] show ?thesis by (rule card_seteq)
  qed
  from step same sub below fits show ?thesis by blast
qed

lemma missing_example:
  "collectAncestorHashes missing_repo (js ''a'') 200 = [js ''a'', js ''b'', js ''c'', js ''d'']"
  unfolding missing_repo_def by code_simp

theorem missing_node_resilience_witness:
  "getCommit missing_repo (js ''b'') = Inl (Thrown (js ''Commit not found''))
   \<and> loop_body missing_repo
        \<lparr>visited = [js ''a''], queue = [js ''b'', js ''c''],
         trace = [Add (js ''a''), Push (js ''b''), Push (js ''c'')]\<rparr>
      = \<lparr>visited = [js ''a'', js ''b''], queue = [js ''c''],
         trace = [Add (js ''a''), Push (js ''b''), Push (js ''c''), Add (js ''b'')]\<rparr>
   \<and> normalizeHash (Some (js ''a'')) = Some (js ''a'')
   \<and> collectAncestorHashes missing_repo (js ''a'') 200 = [js ''a'', js ''b'', js ''c'', js ''d'']
   \<and> reachable missing_repo (js ''a'') = {js ''a'', js ''b'', js ''c'', js ''d''}
   \<and> finite (reachable missing_repo (js ''a'')) \<and> card (reachable missing_repo (js ''a'')) \<le> 4
   \<and> set (collectAncestorHashes missing_repo (js ''a'') 4)
       = {js ''a'', js ''b'', js ''c'', js ''d''}"
proof -
  have g: "getCommit missing_repo (js ''b'') = Inl (Thrown (js ''Commit not found''))"
    by (simp add: fixture_defs)
  have n: "normalizeHash (Some (js ''a'')) = Some (js ''a'')"
    by (simp add: js_def trim_def isWhiteSpace_def)
  have q: "queue \<lparr>visited = [js ''a''], queue = [js ''b'', js ''c''],
         trace = [Add (js ''a''), Push (js ''b''), Push (js ''c'')]\<rparr> = js ''b'' # [js ''c'']
      \<and> js ''b'' \<noteq> []
      \<and> js ''b'' \<notin> set (visited \<lparr>visited = [js ''a''], queue = [js ''b'', js ''c''],
         trace = [Add (js ''a''), Push (js ''b''), Push (js ''c'')]\<rparr>)"
    by (simp add: js_def)
  note m = missing_node_resilience [of
      "\<lparr>visited = [js ''a''], queue = [js ''b'', js ''c''],
         trace = [Add (js ''a''), Push (js ''b''), Push (js ''c'')]\<rparr>"
      "js ''b''" "[js ''c'']" missing_repo "Thrown (js ''Commit not found'')"
      "js ''a''" 200 "js ''a''"]
  from m g q have step: "loop_body missing_repo
        \<lparr>visited = [js ''a''], queue = [js ''b'', js ''c''],
         trace = [Add (js ''a''), Push (js ''b''), Push (js ''c'')]\<rparr>
      = \<lparr>visited = [js ''a'', js ''b''], queue = [js ''c''],
         trace = [Add (js ''a''), Push (js ''b''), Push (js ''c''), Add (js ''b'')]\<rparr>"
    by simp
  from m n missing_example
  have r: "reachable missing_repo (js ''a'') = {js ''a'', js ''b'', js ''c'', js ''d''}"
    by simp
  then have f: "finite (reachable missing_repo (js ''a''))" by simp
  have "card (set [js ''a'', js ''b'', js ''c'', js ''d'']) \<le> length [js ''a'', js ''b'', js ''c'', js ''d'']"
    by (rule card_length)
  with r have c: "card (reachable missing_repo (js ''a'')) \<le> 4" by simp
  note m4 = missing_node_resilience [of
      "\<lparr>visited = [js ''a''], queue = [js ''b'', js ''c''],
         trace = [Add (js ''a''), Push (js ''b''), Push (js ''c'')]\<rparr>"
      "js ''b''" "[js ''c'']" missing_repo "Thrown (js ''Commit not found'')"
      "js ''a''" 4 "js ''a''"]
  from m4 have "normalizeHash (Some (js ''a'')) = Some (js ''a'') \<longrightarrow>
      finite (reachable missing_repo (js ''a'')) \<and> card (reachable missing_repo (js ''a'')) \<le> 4 \<longrightarrow>
      set (collectAncestorHashes missing_repo (js ''a'') 4) = reachable missing_repo (js ''a'')"
    by blast
  with n f c r
  have s4: "set (collectAncestorHashes missing_repo (js ''a'') 4)
              = {js ''a'', js ''b'', js ''c'', js ''d''}"
    by simp
  from g n step missing_example r f c s4 show ?thesis by simp
qed

section \<open>Tag and commit selections\<close>

lemma keepHeadCommit_iff:
  "keepHeadCommit T c \<longleftrightarrow> (\<exists>h. normalizeHash (hash c) = Some h \<and> h \<notin> set T)"
  by (simp add: keepHeadCommit_def split: option.splits)

lemma headHashes_common:
  "list_ex (\<lambda>h. h \<in> set T)
     (map the (filter (\<lambda>h. h \<noteq> None) (map (\<lambda>c. normalizeHash (hash c)) headCommits)))
   \<longleftrightarrow> (\<exists>c\<in>set headCommits. \<exists>h. normalizeHash (hash c) = Some h \<and> h \<in> set T)"
  by (induction headCommits) (auto simp: list_ex_iff)

lemma target_based_unfold:
  assumes "selection = TagSelection d t target \<or> selection = CommitSelection d target"
    and "log r MAX_LOG_ENTRIES = Inr headCommits"
  shows "getCommitsForSelection r selection =
     (if headCommits = [] then Inr []
      else if \<not> (\<exists>c\<in>set headCommits. \<exists>h. normalizeHash (hash c) = Some h
                   \<and> h \<in> set (collectAncestorHashes r target MAX_LOG_ENTRIES))
      then Inr []
      else Inr (map normalizeCommit
             (filter (\<lambda>c. \<exists>h. normalizeHash (hash c) = Some h
                   \<and> h \<notin> set (collectAncestorHashes r target MAX_LOG_ENTRIES)) headCommits)))"
proof -
  have k: "keepHeadCommit T = (\<lambda>c. \<exists>h. normalizeHash (hash c) = Some h \<and> h \<notin> set T)" for T
    by (rule ext) (rule keepHeadCommit_iff)
  from assms(1) show ?thesis
    unfolding getCommitsForSelection_def Let_def headHashes_common k
    by (elim disjE) (auto simp: assms(2))
qed

text \<open>
  Claim C1. For a tag or commit selection, when the head log is non-empty and the
  normalized hash of some head commit is among the ancestors collected from the target,
  the result is the head log, in its order, restricted to the commits whose normalized
  hash exists and is not among those ancestors, each passed through \<open>normalizeCommit\<close>.
  In the scenario of the end-to-end test these are the four feature commits.
\<close>

theorem divergence_filter_correct:
  assumes "selection = TagSelection d t target \<or> selection = CommitSelection d target"
    and "log r MAX_LOG_ENTRIES = Inr headCommits"
    and "headCommits \<noteq> []"
    and "\<exists>c\<in>set headCommits. \<exists>h. normalizeHash (hash c) = Some h
            \<and> h \<in> set (collectAncestorHashes r target MAX_LOG_ENTRIES)"
  shows "getCommitsForSelection r selection =
           Inr (map normalizeCommit
                  (filter (\<lambda>c. \<exists>h. normalizeHash (hash c) = Some h
                             \<and> h \<notin> set (collectAncestorHashes r target MAX_LOG_ENTRIES))
                     headCommits))"
  using target_based_unfold [OF assms(1,2)] assms(3,4) by simp

lemma scenario_ancestors:
  "collectAncestorHashes scenario_repo (js ''m1'') MAX_LOG_ENTRIES = [js ''m1'', js ''c0'']"
  unfolding scenario_repo_def by code_simp

lemma scenario_log: "log scenario_repo MAX_LOG_ENTRIES = Inr [cF4, cF3, cF2, cF1, cI]"
  by (simp add: scenario_repo_def fake_repo_def MAX_LOG_ENTRIES_def)

lemma scenario_hashes:
  "normalizeHash (hash cF4) = Some (js ''f4'')" "normalizeHash (hash cF3) = Some (js ''f3'')"
  "normalizeHash (hash cF2) = Some (js ''f2'')" "normalizeHash (hash cF1) = Some (js ''f1'')"
  "normalizeHash (hash cI) = Some (js ''c0'')" "normalizeHash (hash cM) = Some (js ''m1'')"
  by (simp_all add: fixture_defs trim_def isWhiteSpace_def)

lemma scenario_normalized:
  "normalizeCommit cF4 = cF4" "normalizeCommit cF3 = cF3" "normalizeCommit cF2 = cF2"
  "normalizeCommit cF1 = cF1" "normalizeCommit cI = cI"
  by (simp_all add: normalizeCommit_def fixture_defs trim_def isWhiteSpace_def)

lemma scenario_distinct_hashes:
  "js ''f4'' \<notin> set [js ''m1'', js ''c0'']" "js ''f3'' \<notin> set [js ''m1'', js ''c0'']"
  "js ''f2'' \<notin> set [js ''m1'', js ''c0'']" "js ''f1'' \<notin> set [js ''m1'', js ''c0'']"
  "js ''c0'' \<in> set [js ''m1'', js ''c0'']"
  by (simp_all add: js_def)

theorem divergence_filter_correct_witness:
  "log scenario_repo MAX_LOG_ENTRIES = Inr [cF4, cF3, cF2, cF1, cI]
   \<and> normalizeHash (hash cI) = Some (js ''c0'')
   \<and> js ''c0'' \<in> set (collectAncestorHashes scenario_repo (js ''m1'') MAX_LOG_ENTRIES)
   \<and> getCommitsForSelection scenario_repo
        (TagSelection (TimeValue 4) (js ''target-tag'') (js ''m1'')) = Inr [cF4, cF3, cF2, cF1]"
proof -
  have c: "\<exists>c\<in>set [cF4, cF3, cF2, cF1, cI]. \<exists>h. normalizeHash (hash c) = Some h
            \<and> h \<in> set (collectAncestorHashes scenario_repo (js ''m1'') MAX_LOG_ENTRIES)"
    using scenario_hashes(5) scenario_distinct_hashes(5) by (simp add: scenario_ancestors)
  have "getCommitsForSelection scenario_repo
        (TagSelection (TimeValue 4) (js ''target-tag'') (js ''m1'')) =
          Inr (map normalizeCommit
                  (filter (\<lambda>c. \<exists>h. normalizeHash (hash c) = Some h
                     \<and> h \<notin> set (collectAncestorHashes scenario_repo (js ''m1'') MAX_LOG_ENTRIES))
                     [cF4, cF3, cF2, cF1, cI]))"
    by (rule divergence_filter_correct [OF _ scenario_log _ c]) simp_all
  then have "getCommitsForSelection scenario_repo
        (TagSelection (TimeValue 4) (js ''target-tag'') (js ''m1'')) = Inr [cF4, cF3, cF2, cF1]"
    using scenario_distinct_hashes
    by (simp add: scenario_ancestors scenario_hashes scenario_normalized)
  with scenario_log scenario_hashes(5) scenario_distinct_hashes(5) show ?thesis
    by (simp add: scenario_ancestors)
qed

lemma scenario_any_log_order:
  assumes "mset headLog = mset [cF4, cF3, cF2, cF1, cI]"
  shows "\<exists>res. getCommitsForSelection (fake_repo headLog [cF4, cF3, cF2, cF1, cI, cM])
                 (TagSelection (TimeValue 4) (js ''target-tag'') (js ''m1'')) = Inr res
            \<and> mset res = mset [cF4, cF3, cF2, cF1]"
proof -
  let ?r = "fake_repo headLog [cF4, cF3, cF2, cF1, cI, cM]"
  let ?T = "collectAncestorHashes ?r (js ''m1'') MAX_LOG_ENTRIES"
  let ?P = "\<lambda>c. \<exists>h. normalizeHash (hash c) = Some h \<and> h \<notin> set ?T"
  from assms have "size (mset headLog) = 5" by simp
  then have len: "length headLog = 5" by simp
  then have lg: "log ?r MAX_LOG_ENTRIES = Inr headLog"
    by (simp add: fake_repo_def MAX_LOG_ENTRIES_def)
  have "getCommit ?r = getCommit scenario_repo" by (simp add: fake_repo_def scenario_repo_def)
  from collect_getCommit [OF this] have T: "?T = [js ''m1'', js ''c0'']"
    by (simp add: scenario_ancestors)
  from assms have "set_mset (mset headLog) = set_mset (mset [cF4, cF3, cF2, cF1, cI])" by simp
  then have "cI \<in> set headLog" by simp
  with scenario_hashes(5) scenario_distinct_hashes(5)
  have c: "\<exists>c\<in>set headLog. \<exists>h. normalizeHash (hash c) = Some h \<and> h \<in> set ?T"
    unfolding T by blast
  from len have ne: "headLog \<noteq> []" by auto
  have res: "getCommitsForSelection ?r (TagSelection (TimeValue 4) (js ''target-tag'') (js ''m1''))
      = Inr (map normalizeCommit (filter ?P headLog))"
    using target_based_unfold [OF _ lg, of "TagSelection (TimeValue 4) (js ''target-tag'') (js ''m1'')"
        "TimeValue 4" "js ''target-tag''" "js ''m1''"] ne c by simp
  have "mset (map normalizeCommit (filter ?P headLog))
      = image_mset normalizeCommit (filter_mset ?P (mset headLog))" by simp
  also have "\<dots> = mset (map normalizeCommit (filter ?P [cF4, cF3, cF2, cF1, cI]))"
    unfolding assms by simp
  also have "map normalizeCommit (filter ?P [cF4, cF3, cF2, cF1, cI]) = [cF4, cF3, cF2, cF1]"
    unfolding T using scenario_distinct_hashes
    by (simp add: scenario_hashes scenario_normalized)
  finally show ?thesis using res by blast
qed

text \<open>
  Claim C5. For a tag or commit selection the result is the empty list, not an error, when
  the head log is empty, and also when no head commit has a normalized hash among the
  ancestors collected from the target.
\<close>

theorem no_common_ancestor_empty:
  assumes "selection = TagSelection d t target \<or> selection = CommitSelection d target"
    and "log r MAX_LOG_ENTRIES = Inr headCommits"
    and "headCommits = []
         \<or> (\<forall>c\<in>set headCommits. \<forall>h. normalizeHash (hash c) = Some h
               \<longrightarrow> h \<notin> set (collectAncestorHashes r target MAX_LOG_ENTRIES))"
  shows "getCommitsForSelection r selection = Inr []"
  using target_based_unfold [OF assms(1,2)] assms(3) by auto

lemma disjoint_ancestors:
  "collectAncestorHashes disjoint_repo (js ''m1'') MAX_LOG_ENTRIES = [js ''m1'', js ''c0'']"
  unfolding disjoint_repo_def by code_simp

theorem no_common_ancestor_empty_witness:
  "log (fake_repo [] [cM, cI]) MAX_LOG_ENTRIES = Inr []
   \<and> getCommitsForSelection (fake_repo [] [cM, cI])
        (CommitSelection (TimeValue 4) (js ''m1'')) = Inr []
   \<and> log disjoint_repo MAX_LOG_ENTRIES
        = Inr [mk_commit ''x2'' [''x1''] 7, mk_commit ''x1'' [] 6]
   \<and> js ''x2'' \<notin> set (collectAncestorHashes disjoint_repo (js ''m1'') MAX_LOG_ENTRIES)
   \<and> js ''x1'' \<notin> set (collectAncestorHashes disjoint_repo (js ''m1'') MAX_LOG_ENTRIES)
   \<and> getCommitsForSelection disjoint_repo
        (TagSelection (TimeValue 4) (js ''target-tag'') (js ''m1'')) = Inr []"
proof -
  have l1: "log (fake_repo [] [cM, cI]) MAX_LOG_ENTRIES = Inr []" by (simp add: fake_repo_def)
  have l2: "log disjoint_repo MAX_LOG_ENTRIES
        = Inr [mk_commit ''x2'' [''x1''] 7, mk_commit ''x1'' [] 6]"
    by (simp add: disjoint_repo_def fake_repo_def MAX_LOG_ENTRIES_def)
  have x: "js ''x2'' \<notin> set (collectAncestorHashes disjoint_repo (js ''m1'') MAX_LOG_ENTRIES)"
          "js ''x1'' \<notin> set (collectAncestorHashes disjoint_repo (js ''m1'') MAX_LOG_ENTRIES)"
    unfolding disjoint_ancestors by (simp_all add: js_def)
  have h: "normalizeHash (hash (mk_commit ''x2'' [''x1''] 7)) = Some (js ''x2'')"
          "normalizeHash (hash (mk_commit ''x1'' [] 6)) = Some (js ''x1'')"
    by (simp_all add: mk_commit_def js_def trim_def isWhiteSpace_def)
  have d: "\<forall>c\<in>set [mk_commit ''x2'' [''x1''] 7, mk_commit ''x1'' [] 6].
             \<forall>h. normalizeHash (hash c) = Some h
               \<longrightarrow> h \<notin> set (collectAncestorHashes disjoint_repo (js ''m1'') MAX_LOG_ENTRIES)"
    using x h by simp
  have 1: "getCommitsForSelection (fake_repo [] [cM, cI])
        (CommitSelection (TimeValue 4) (js ''m1'')) = Inr []"
    by (rule no_common_ancestor_empty [OF _ l1]) simp_all
  have 2: "getCommitsForSelection disjoint_repo
        (TagSelection (TimeValue 4) (js ''target-tag'') (js ''m1'')) = Inr []"
    by (rule no_common_ancestor_empty [OF _ l2]) (simp, rule disjI2, rule d)
  from l1 l2 x 1 2 show ?thesis by simp
qed

section \<open>Days selections\<close>

lemma getCommitDate_normalizeCommit: "getCommitDate (normalizeCommit c) = getCommitDate c"
  by (simp add: normalizeCommit_def getCommitDate_def split: option.splits)

lemma date_ge_iff: "date_ge a b \<longleftrightarrow> (\<exists>t t0. a = TimeValue t \<and> b = TimeValue t0 \<and> t0 \<le> t)"
  by (cases a; cases b) simp_all

text \<open>
  Claim C6. For a days selection the result is the fetched log restricted to the commits
  whose date is a time value on or after the cutoff, each passed through
  \<open>normalizeCommit\<close>: a commit dated exactly at the cutoff is returned, and no returned
  commit is dated before the cutoff. The date of a commit is its \<open>authorDate\<close> when it has
  one. \<open>getCommit\<close> plays no part: the result is the same whatever \<open>getCommit\<close> does.
\<close>

theorem days_filter_inclusive:
  assumes "log r MAX_LOG_ENTRIES = Inr allCommits"
  shows "\<exists>res. getCommitsForSelection r (DaysSelection since n) = Inr res
      \<and> res = map normalizeCommit
                (filter (\<lambda>c. \<exists>t t0. getCommitDate c = TimeValue t \<and> since = TimeValue t0 \<and> t0 \<le> t)
                   allCommits)
      \<and> (\<forall>c\<in>set allCommits. \<forall>t0. since = TimeValue t0 \<and> getCommitDate c = TimeValue t0
             \<longrightarrow> normalizeCommit c \<in> set res)
      \<and> (\<forall>c\<in>set res. \<exists>t t0. getCommitDate c = TimeValue t \<and> since = TimeValue t0 \<and> t0 \<le> t)
      \<and> (\<forall>c. \<forall>d. authorDate c = Some d \<longrightarrow> getCommitDate c = d)
      \<and> getCommitsForSelection (r\<lparr>getCommit := g\<rparr>) (DaysSelection since n) = Inr res"
proof -
  let ?P = "\<lambda>c. \<exists>t t0. getCommitDate c = TimeValue t \<and> since = TimeValue t0 \<and> t0 \<le> t"
  let ?res = "map normalizeCommit (filter ?P allCommits)"
  have 1: "getCommitsForSelection r (DaysSelection since n) = Inr ?res"
    by (simp add: getCommitsForSelection_def assms date_ge_iff)
  have 2: "getCommitsForSelection (r\<lparr>getCommit := g\<rparr>) (DaysSelection since n) = Inr ?res"
    by (simp add: getCommitsForSelection_def assms date_ge_iff)
  have 3: "\<forall>c\<in>set allCommits. \<forall>t0. since = TimeValue t0 \<and> getCommitDate c = TimeValue t0
             \<longrightarrow> normalizeCommit c \<in> set ?res" by auto
  have 4: "\<forall>c\<in>set ?res. \<exists>t t0. getCommitDate c = TimeValue t \<and> since = TimeValue t0 \<and> t0 \<le> t"
    by (auto simp: getCommitDate_normalizeCommit)
  have 5: "\<forall>c. \<forall>d. authorDate c = Some d \<longrightarrow> getCommitDate c = d"
    by (simp add: getCommitDate_def)
  from 1 2 3 4 5 show ?thesis by blast
qed

lemma scenario_dates:
  "getCommitDate cF4 = TimeValue 5" "getCommitDate cF3 = TimeValue 3"
  "getCommitDate cF2 = TimeValue 2" "getCommitDate cF1 = TimeValue 1"
  "getCommitDate cI = TimeValue 0"
  by (simp_all add: getCommitDate_def fixture_defs)

theorem days_filter_inclusive_witness:
  "log scenario_repo MAX_LOG_ENTRIES = Inr [cF4, cF3, cF2, cF1, cI]
   \<and> getCommitDate cF2 = TimeValue 2 \<and> getCommitDate cF1 = TimeValue 1
   \<and> getCommitsForSelection scenario_repo (DaysSelection (TimeValue 2) 14) = Inr [cF4, cF3, cF2]"
proof -
  from days_filter_inclusive [OF scenario_log, of "TimeValue 2" 14]
  have "getCommitsForSelection scenario_repo (DaysSelection (TimeValue 2) 14)
      = Inr (map normalizeCommit
          (filter (\<lambda>c. \<exists>t t0. getCommitDate c = TimeValue t \<and> TimeValue 2 = TimeValue t0 \<and> t0 \<le> t)
             [cF4, cF3, cF2, cF1, cI]))"
    by blast
  then have "getCommitsForSelection scenario_repo (DaysSelection (TimeValue 2) 14) = Inr [cF4, cF3, cF2]"
    by (simp add: scenario_dates scenario_normalized)
  with scenario_log scenario_dates show ?thesis by simp
qed

section \<open>Order of the result\<close>

text \<open>
  Claim C7. Whenever \<open>getCommitsForSelection\<close> returns a list, for any selection, that list
  is a subsequence of the fetched log with each commit passed through \<open>normalizeCommit\<close>:
  the commits come in the order of the log, nothing is sorted again.
\<close>

theorem order_preserved:
  assumes "getCommitsForSelection r selection = Inr res"
  shows "\<exists>fetched kept. log r MAX_LOG_ENTRIES = Inr fetched \<and> subseq kept fetched
           \<and> res = map normalizeCommit kept \<and> subseq res (map normalizeCommit fetched)"
proof -
  from assms obtain fetched where lg: "log r MAX_LOG_ENTRIES = Inr fetched"
    by (cases "log r MAX_LOG_ENTRIES"; cases selection)
       (simp_all add: getCommitsForSelection_def)
  have "\<exists>P. res = map normalizeCommit (filter P fetched)"
  proof (cases selection)
    case (DaysSelection since n)
    with assms lg show ?thesis by (auto simp: getCommitsForSelection_def)
  next
    case (TagSelection d t target)
    then have "selection = TagSelection d t target \<or> selection = CommitSelection d target" by simp
    from target_based_unfold [OF this lg] assms
    show ?thesis by (auto split: if_splits intro: exI [of _ "\<lambda>c. False"])
  next
    case (CommitSelection d target)
    then have "selection = TagSelection d [] target \<or> selection = CommitSelection d target" by simp
    from target_based_unfold [OF this lg] assms
    show ?thesis by (auto split: if_splits intro: exI [of _ "\<lambda>c. False"])
  qed
  then obtain P where res: "res = map normalizeCommit (filter P fetched)" by blast
  have s: "subseq (filter P fetched) fetched" by simp
  then have "subseq (map normalizeCommit (filter P fetched)) (map normalizeCommit fetched)"
    by (rule subseq_map)
  with lg res s show ?thesis by blast
qed

lemma scenario_result:
  "getCommitsForSelection scenario_repo (TagSelection (TimeValue 4) (js ''target-tag'') (js ''m1''))
     = Inr [cF4, cF3, cF2, cF1]"
  by code_simp

theorem order_preserved_witness:
  "getCommitsForSelection scenario_repo (TagSelection (TimeValue 4) (js ''target-tag'') (js ''m1''))
     = Inr [cF4, cF3, cF2, cF1]
   \<and> log scenario_repo MAX_LOG_ENTRIES = Inr [cF4, cF3, cF2, cF1, cI]
   \<and> subseq [cF4, cF3, cF2, cF1] [cF4, cF3, cF2, cF1, cI]"
proof -
  from order_preserved [OF scenario_result] obtain fetched where
    "log scenario_repo MAX_LOG_ENTRIES = Inr fetched"
    "subseq [cF4, cF3, cF2, cF1] (map normalizeCommit fetched)" by blast
  with scenario_log have "subseq [cF4, cF3, cF2, cF1] [cF4, cF3, cF2, cF1, cI]"
    by (simp add: scenario_normalized)
  with scenario_result scenario_log show ?thesis by simp
qed

section \<open>Only trimmed, non-empty identifiers\<close>

lemma hash_normalizeCommit:
  "normalizeHash (hash c) = Some h \<Longrightarrow> hash (normalizeCommit c) = Some h"
  by (auto simp: normalizeCommit_def)

text \<open>
  Claim C10. For a tag or commit selection every returned commit has a hash that is
  non-empty and has no white space at either end, so no head commit with a missing, empty
  or blank hash is returned; leaving those commits out of the head log beforehand does not
  change the result. Every identifier in the set returned by \<open>collectAncestorHashes\<close> is
  non-empty and has no white space at either end.
\<close>

theorem identifiers_trimmed:
  "(selection = TagSelection d t target \<or> selection = CommitSelection d target \<longrightarrow>
      (\<forall>res. getCommitsForSelection r selection = Inr res \<longrightarrow>
         (\<forall>c\<in>set res. \<exists>h. hash c = Some h \<and> trimmed h))
      \<and> getCommitsForSelection
          (r\<lparr>log := \<lambda>n. map_sum id (filter (\<lambda>c. normalizeHash (hash c) \<noteq> None)) (log r n)\<rparr>)
          selection
        = getCommitsForSelection r selection)
   \<and> (\<forall>h\<in>set (collectAncestorHashes r startHash maxCommits). trimmed h)"
proof (intro conjI impI allI)
  from collect_run_inv [of maxCommits r startHash]
  show "\<forall>h\<in>set (collectAncestorHashes r startHash maxCommits). trimmed h"
    by (simp add: bfs_inv_def collectAncestorHashes_def)
next
  fix res
  assume sel: "selection = TagSelection d t target \<or> selection = CommitSelection d target"
    and res: "getCommitsForSelection r selection = Inr res"
  then obtain headCommits where lg: "log r MAX_LOG_ENTRIES = Inr headCommits"
    by (cases "log r MAX_LOG_ENTRIES") (auto simp: getCommitsForSelection_def)
  show "\<forall>c\<in>set res. \<exists>h. hash c = Some h \<and> trimmed h"
  proof
    fix c assume "c \<in> set res"
    with target_based_unfold [OF sel lg] res obtain c0 h where
      "c = normalizeCommit c0" "normalizeHash (hash c0) = Some h"
      by (auto split: if_splits)
    with hash_normalizeCommit [of c0 h] normalizeHash_Some_trimmed [of "hash c0" h]
    show "\<exists>h. hash c = Some h \<and> trimmed h" by simp
  qed
next
  assume sel: "selection = TagSelection d t target \<or> selection = CommitSelection d target"
  let ?r = "r\<lparr>log := \<lambda>n. map_sum id (filter (\<lambda>c. normalizeHash (hash c) \<noteq> None)) (log r n)\<rparr>"
  show "getCommitsForSelection ?r selection = getCommitsForSelection r selection"
  proof (cases "log r MAX_LOG_ENTRIES")
    case (Inl e)
    with sel show ?thesis by (auto simp: getCommitsForSelection_def)
  next
    case (Inr headCommits)
    let ?T = "collectAncestorHashes r target MAX_LOG_ENTRIES"
    let ?H = "filter (\<lambda>c. normalizeHash (hash c) \<noteq> None) headCommits"
    from Inr have lg': "log ?r MAX_LOG_ENTRIES = Inr ?H" by simp
    have "getCommit ?r = getCommit r" by simp
    from collect_getCommit [OF this] have T: "collectAncestorHashes ?r target MAX_LOG_ENTRIES = ?T" .
    have f: "filter (\<lambda>c. \<exists>h. normalizeHash (hash c) = Some h \<and> h \<notin> set ?T) ?H
           = filter (\<lambda>c. \<exists>h. normalizeHash (hash c) = Some h \<and> h \<notin> set ?T) headCommits"
      by (induction headCommits) auto
    have e: "(\<exists>c\<in>set ?H. \<exists>h. normalizeHash (hash c) = Some h \<and> h \<in> set ?T)
           \<longleftrightarrow> (\<exists>c\<in>set headCommits. \<exists>h. normalizeHash (hash c) = Some h \<and> h \<in> set ?T)"
      by auto
    have n: "?H = [] \<Longrightarrow>
        \<not> (\<exists>c\<in>set headCommits. \<exists>h. normalizeHash (hash c) = Some h \<and> h \<in> set ?T)"
      by (auto simp: filter_empty_conv)
    show ?thesis
      unfolding target_based_unfold [OF sel lg'] target_based_unfold [OF sel Inr] T f e
      using n by auto
  qed
qed

lemma untidy_result:
  "getCommitsForSelection untidy_repo (TagSelection (TimeValue 4) (js ''target-tag'') (js ''m1''))
     = Inr [cF4, cF1]"
  by code_simp

lemma untidy_ancestors:
  "collectAncestorHashes untidy_repo (js '' m1 '') 200 = [js ''m1'', js ''c0'']"
  unfolding untidy_repo_def by code_simp

theorem identifiers_trimmed_witness:
  "getCommitsForSelection untidy_repo (TagSelection (TimeValue 4) (js ''target-tag'') (js ''m1''))
     = Inr [cF4, cF1]
   \<and> hash cF4 = Some (js ''f4'') \<and> trimmed (js ''f4'')
   \<and> hash cF1 = Some (js ''f1'') \<and> trimmed (js ''f1'')
   \<and> log (untidy_repo\<lparr>log := \<lambda>n. map_sum id (filter (\<lambda>c. normalizeHash (hash c) \<noteq> None))
                                 (log untidy_repo n)\<rparr>) MAX_LOG_ENTRIES
       = Inr [cF4\<lparr>hash := Some (js '' f4 '')\<rparr>, cF1, cI]
   \<and> getCommitsForSelection
         (untidy_repo\<lparr>log := \<lambda>n. map_sum id (filter (\<lambda>c. normalizeHash (hash c) \<noteq> None))
                                 (log untidy_repo n)\<rparr>)
         (TagSelection (TimeValue 4) (js ''target-tag'') (js ''m1'')) = Inr [cF4, cF1]
   \<and> collectAncestorHashes untidy_repo (js '' m1 '') 200 = [js ''m1'', js ''c0'']
   \<and> trimmed (js ''m1'') \<and> trimmed (js ''c0'')"
proof -
  note t = identifiers_trimmed [of
      "TagSelection (TimeValue 4) (js ''target-tag'') (js ''m1'')" "TimeValue 4"
      "js ''target-tag''" "js ''m1''" untidy_repo "js '' m1 ''" 200]
  from t untidy_result have a: "\<forall>c\<in>set [cF4, cF1]. \<exists>h. hash c = Some h \<and> trimmed h" by simp
  have h: "hash cF4 = Some (js ''f4'')" "hash cF1 = Some (js ''f1'')"
    by (simp_all add: fixture_defs)
  from a h have tr: "trimmed (js ''f4'')" "trimmed (js ''f1'')" by simp_all
  from t untidy_ancestors have tm: "trimmed (js ''m1'')" "trimmed (js ''c0'')" by simp_all
  from t untidy_result have g: "getCommitsForSelection
         (untidy_repo\<lparr>log := \<lambda>n. map_sum id (filter (\<lambda>c. normalizeHash (hash c) \<noteq> None))
                                 (log untidy_repo n)\<rparr>)
         (TagSelection (TimeValue 4) (js ''target-tag'') (js ''m1'')) = Inr [cF4, cF1]" by simp
  have l: "log (untidy_repo\<lparr>log := \<lambda>n. map_sum id (filter (\<lambda>c. normalizeHash (hash c) \<noteq> None))
                                 (log untidy_repo n)\<rparr>) MAX_LOG_ENTRIES
       = Inr [cF4\<lparr>hash := Some (js '' f4 '')\<rparr>, cF1, cI]"
    by (simp add: untidy_repo_def fixture_defs MAX_LOG_ENTRIES_def trim_def isWhiteSpace_def)
  from untidy_result h tr l g untidy_ancestors tm show ?thesis by simp
qed

end
